theory Spec2Isabelle
  imports Complex_Main
begin

section \<open>Python strings and integers used by the scripts\<close>

text \<open>
  A Python \<open>str\<close> is modelled as a list of characters with code points below 256.
  The scripts build identifiers with f-strings (\<open>f"u{i:03}"\<close>, \<open>f"uid_{int(time.time())}"\<close>)
  and take them apart again with \<open>lstrip\<close> and \<open>int\<close>.
\<close>

definition digit_char :: "nat \<Rightarrow> char" where
  "digit_char n = ''0123456789'' ! (n mod 10)"

text \<open>The decimal digits of a non-negative integer, most significant first.\<close>

function str_nat :: "nat \<Rightarrow> string" where
  "str_nat n = (if n < 10 then [digit_char n] else str_nat (n div 10) @ [digit_char n])"
  by pat_completeness auto
termination
  by (relation "measure id") auto

declare str_nat.simps [simp del]

text \<open>
  Turning an integer into decimal text, as \<open>str(i)\<close> and every f-string do, raises
  \<open>ValueError\<close>, modelled as \<open>None\<close>, when the number has more digits than the
  interpreter's limit \<open>maxd\<close> (\<open>sys.get_int_max_str_digits()\<close>; 0: no limit). The
  interpreter looks at the limit only for texts of more than 640 characters, sign
  included, and counts the digits without the sign.
\<close>

definition str_int :: "nat \<Rightarrow> int \<Rightarrow> string option" where
  "str_int maxd i =
     (let ds = str_nat (nat \<bar>i\<bar>);
          s = (if i < 0 then CHR ''-'' # ds else ds)
      in if 640 < length s \<and> 0 < maxd \<and> maxd < length ds then None else Some s)"

text \<open>
  The format specification \<open>03\<close> of \<open>f"{i:03}"\<close>: the same conversion, with the same
  limit, then the sign first, zeros up to a total width of three, and the digits; longer
  numbers are not cut.
\<close>

definition fmt03 :: "nat \<Rightarrow> int \<Rightarrow> string option" where
  "fmt03 maxd i =
     (case str_int maxd i of
        None \<Rightarrow> None
      | Some s \<Rightarrow>
          (let sign = (if i < 0 then ''-'' else '''');
               ds = str_nat (nat \<bar>i\<bar>)
           in Some (sign @ replicate (3 - length sign - length ds) CHR ''0'' @ ds)))"

text \<open>\<open>s.lstrip("u")\<close> removes every leading \<open>u\<close>, not only the first.\<close>

definition lstrip_u :: "string \<Rightarrow> string" where
  "lstrip_u s = dropWhile (\<lambda>c. c = CHR ''u'') s"

text \<open>
  \<open>int(s)\<close> in base ten accepts: optional surrounding whitespace, one optional sign, and a
  non-empty run of decimal digits in which single underscores may separate digits.
  Anything else raises \<open>ValueError\<close>, modelled as \<open>None\<close>. Among the code points below
  256 the whitespace characters of \<open>int\<close> are 9 to 13, 32, 133 and 160.
  The parameter \<open>maxd\<close> is the interpreter's \<open>sys.get_int_max_str_digits()\<close> (0: no limit;
  interpreters without the limit behave as with 0): more than \<open>maxd\<close> digits raise
  \<open>ValueError\<close> too.
\<close>

definition is_space :: "char \<Rightarrow> bool" where
  "is_space c = (let n = (of_char c :: nat) in (9 \<le> n \<and> n \<le> 13) \<or> n = 32 \<or> n = 133 \<or> n = 160)"

definition is_digit :: "char \<Rightarrow> bool" where
  "is_digit c = (let n = (of_char c :: nat) in 48 \<le> n \<and> n \<le> 57)"

definition digit_val :: "char \<Rightarrow> nat" where
  "digit_val c = of_char c - 48"

text \<open>
  \<open>scan_digits prev count acc s\<close> reads digits and underscores from \<open>s\<close>; \<open>prev\<close> tells
  whether the previous character was an underscore. It returns the value, the number of
  digits and the unread rest, or \<open>None\<close> on a doubled or trailing underscore.
\<close>

fun scan_digits :: "bool \<Rightarrow> nat \<Rightarrow> nat \<Rightarrow> string \<Rightarrow> (nat \<times> nat \<times> string) option" where
  "scan_digits prev cnt acc [] = (if prev then None else Some (acc, cnt, []))"
| "scan_digits prev cnt acc (c # cs) =
     (if c = CHR ''_'' then (if prev then None else scan_digits True cnt acc cs)
      else if is_digit c then scan_digits False (Suc cnt) (10 * acc + digit_val c) cs
      else if prev then None else Some (acc, cnt, c # cs))"

definition py_int :: "nat \<Rightarrow> string \<Rightarrow> int option" where
  "py_int maxd s =
     (let s1 = dropWhile is_space s;
          neg = (s1 \<noteq> [] \<and> hd s1 = CHR ''-'');
          s2 = (if s1 \<noteq> [] \<and> (hd s1 = CHR ''+'' \<or> hd s1 = CHR ''-'') then tl s1 else s1)
      in if s2 \<noteq> [] \<and> hd s2 = CHR ''_'' then None
         else case scan_digits False 0 0 s2 of
                None \<Rightarrow> None
              | Some (v, cnt, rest) \<Rightarrow>
                  if cnt = 0 then None
                  else if 640 < cnt \<and> 0 < maxd \<and> maxd < cnt then None
                  else if dropWhile is_space rest \<noteq> [] then None
                  else Some (if neg then - int v else int v))"

text \<open>
  The server orders strings by their code points, position by position; a proper prefix
  comes first.
\<close>

fun str_less :: "string \<Rightarrow> string \<Rightarrow> bool" where
  "str_less [] [] = False"
| "str_less [] (y # ys) = True"
| "str_less (x # xs) [] = False"
| "str_less (x # xs) (y # ys) =
     ((of_char x :: nat) < of_char y \<or> (x = y \<and> str_less xs ys))"

section \<open>Documents and the \<open>userProfile\<close> collection\<close>

text \<open>
  Every document the scripts write to \<open>userProfile\<close> has the fields \<open>_id\<close>, \<open>user_id\<close>,
  \<open>username\<close>, \<open>email\<close>, one boolean marker field set to \<open>True\<close> (its name is kept in
  \<open>marker\<close>) and a time stamp read from \<open>time.time()\<close>.
\<close>

record doc =
  doc_id :: string
  user_id :: string
  username :: string
  email :: string
  marker :: string
  stamp :: real

text \<open>A collection holds its documents in insertion order.\<close>

type_synonym collection = "doc list"

datatype py_error = DuplicateKeyError | PyMongoError | ValueError

text \<open>
  What happens to one request at the server and on the way back: the server serves it
  and answers; or the request fails before the server has done anything (no server
  selected, not primary, connection refused); or the server serves it and the answer is
  lost, so that the driver raises although the write is done.
\<close>

datatype server_reply = Served | Refused py_error | AnswerLost py_error

definition count_documents :: "collection \<Rightarrow> nat" where
  "count_documents c = length c"

text \<open>\<open>delete_many({})\<close>: the empty filter matches every document.\<close>

definition delete_many :: "collection \<Rightarrow> collection" where
  "delete_many c = filter (\<lambda>d. False) c"

text \<open>
  \<open>insert_one\<close>: the exception raised, if any, and the collection afterwards. A served
  insert raises \<open>DuplicateKeyError\<close> when the \<open>_id\<close> is taken and stores the document
  otherwise; a refused one raises the driver's error and stores nothing; when the answer
  is lost the driver's error is raised and the document is stored if the \<open>_id\<close> was
  free.
\<close>

definition insert_one :: "server_reply \<Rightarrow> doc \<Rightarrow> collection \<Rightarrow> py_error option \<times> collection" where
  "insert_one reply d c =
     (case reply of
        Served \<Rightarrow>
          if doc_id d \<in> set (map doc_id c) then (Some DuplicateKeyError, c)
          else (None, c @ [d])
      | Refused e \<Rightarrow> (Some e, c)
      | AnswerLost e \<Rightarrow>
          (Some e, if doc_id d \<in> set (map doc_id c) then c else c @ [d]))"

text \<open>\<open>find_one({"_id": i})\<close>.\<close>

definition find_one_id :: "string \<Rightarrow> collection \<Rightarrow> doc option" where
  "find_one_id i c = find (\<lambda>d. doc_id d = i) c"

text \<open>
  \<open>find_one(sort=[("user_id", -1)])\<close>: a document whose \<open>user_id\<close> is largest, the
  earliest inserted among equals; \<open>None\<close> on an empty collection.
\<close>

fun largest_user_id :: "doc \<Rightarrow> collection \<Rightarrow> doc" where
  "largest_user_id best [] = best"
| "largest_user_id best (d # ds) =
     largest_user_id (if str_less (user_id best) (user_id d) then d else best) ds"

fun find_one_sort_desc :: "collection \<Rightarrow> doc option" where
  "find_one_sort_desc [] = None"
| "find_one_sort_desc (d # ds) = Some (largest_user_id d ds)"

section \<open>\<open>setup_baseline.py\<close>, step 2\<close>

text \<open>What a script prints about an insertion.\<close>

datatype event =
    Inserted string
  | AlreadyExists string
  | UnexpectedError string
  | InsertError string

text \<open>
  The baseline document number \<open>i\<close>, given its identifier \<open>f"u{i:03}"\<close> and the text
  of \<open>i\<close> in \<open>f"Tan_{i}"\<close>.
\<close>

definition baseline_doc :: "(nat \<Rightarrow> real) \<Rightarrow> nat \<Rightarrow> string \<Rightarrow> string \<Rightarrow> doc" where
  "baseline_doc now i uid name =
     \<lparr> doc_id = uid,
       user_id = uid,
       username = ''Tan_'' @ name,
       email = ''Tan_'' @ name @ ''@example.com'',
       marker = ''inserted_before_failover'',
       stamp = now i \<rparr>"

text \<open>
  The body of the loop \<open>for i in range(1, 6)\<close>. The identifier is formatted before
  the \<open>try\<close>, so an exception there ends the script. The document is built and
  \<open>insert_one\<close> is called inside the \<open>try\<close>, which has a handler for
  \<open>DuplicateKeyError\<close> and one for every other exception; both handlers print and
  the loop goes on. \<open>replies i\<close> is what happens to the insert of document \<open>i\<close>.
\<close>

definition baseline_insert ::
  "nat \<Rightarrow> (nat \<Rightarrow> real) \<Rightarrow> (nat \<Rightarrow> server_reply) \<Rightarrow> collection \<times> event list \<Rightarrow> nat
     \<Rightarrow> py_error + collection \<times> event list" where
  "baseline_insert maxd now replies st i =
     (case fmt03 maxd (int i) of
        None \<Rightarrow> Inl ValueError
      | Some num \<Rightarrow>
          (let user_id = ''u'' @ num in
           case str_int maxd (int i) of
             None \<Rightarrow> Inr (fst st, snd st @ [UnexpectedError user_id])
           | Some name \<Rightarrow>
               (case insert_one (replies i) (baseline_doc now i user_id name) (fst st) of
                  (None, c') \<Rightarrow> Inr (c', snd st @ [Inserted user_id])
                | (Some DuplicateKeyError, c') \<Rightarrow> Inr (c', snd st @ [AlreadyExists user_id])
                | (Some _, c') \<Rightarrow> Inr (c', snd st @ [UnexpectedError user_id]))))"

fun baseline_loop ::
  "nat \<Rightarrow> (nat \<Rightarrow> real) \<Rightarrow> (nat \<Rightarrow> server_reply) \<Rightarrow> collection \<times> event list \<Rightarrow> nat list
     \<Rightarrow> py_error + collection \<times> event list" where
  "baseline_loop maxd now replies st [] = Inr st"
| "baseline_loop maxd now replies st (i # rest) =
     (case baseline_insert maxd now replies st i of
        Inl e \<Rightarrow> Inl e
      | Inr st' \<Rightarrow> baseline_loop maxd now replies st' rest)"

text \<open>
  Step 2: count, delete everything when the count is positive, then the loop. The result
  is the collection and what was printed, or the exception that ended the script.
\<close>

definition setup_baseline ::
  "nat \<Rightarrow> (nat \<Rightarrow> real) \<Rightarrow> (nat \<Rightarrow> server_reply) \<Rightarrow> collection
     \<Rightarrow> py_error + collection \<times> event list" where
  "setup_baseline maxd now replies c =
     (let existing_count = count_documents c;
          c1 = (if existing_count > 0 then delete_many c else c)
      in baseline_loop maxd now replies (c1, []) [1, 2, 3, 4, 5])"

section \<open>\<open>replication_experiment.py\<close>, step 6\<close>

text \<open>
  The document inserted after the failover, given its identifier \<open>f"u{next_num:03}"\<close>
  and the text of the number in \<open>f"user_{next_num}"\<close>.
\<close>

definition failover_doc :: "real \<Rightarrow> string \<Rightarrow> string \<Rightarrow> doc" where
  "failover_doc now uid name =
     \<lparr> doc_id = uid,
       user_id = uid,
       username = ''user_'' @ name,
       email = ''user_'' @ name @ ''@example.com'',
       marker = ''inserted_after_failover'',
       stamp = now \<rparr>"

text \<open>
  The number of the next document: one more than \<open>int(last_doc["user_id"].lstrip("u"))\<close>
  of the document with the largest \<open>user_id\<close>, or 1 on an empty collection. The
  conversion is outside every \<open>try\<close>, so its \<open>ValueError\<close> ends the script.
\<close>

definition next_num :: "nat \<Rightarrow> collection \<Rightarrow> py_error + int" where
  "next_num maxd c =
     (case find_one_sort_desc c of
        Some last_doc \<Rightarrow>
          (case py_int maxd (lstrip_u (user_id last_doc)) of
             None \<Rightarrow> Inl ValueError
           | Some last_num \<Rightarrow> Inr (last_num + 1))
      | None \<Rightarrow> Inr 1)"

text \<open>
  The identifier \<open>f"u{next_num:03}"\<close> is formatted outside every \<open>try\<close> too, so a
  number too long to be printed ends the script with \<open>ValueError\<close> as well. The
  document is built and inserted inside \<open>try\<close> with one handler for every exception,
  which prints and goes on.
\<close>

definition insert_after_failover ::
  "nat \<Rightarrow> real \<Rightarrow> server_reply \<Rightarrow> collection \<Rightarrow> py_error + collection \<times> event list" where
  "insert_after_failover maxd now reply c =
     (case next_num maxd c of
        Inl e \<Rightarrow> Inl e
      | Inr n \<Rightarrow>
          (case fmt03 maxd n of
             None \<Rightarrow> Inl ValueError
           | Some num \<Rightarrow>
               (let user_id = ''u'' @ num in
                case str_int maxd n of
                  None \<Rightarrow> Inr (c, [InsertError user_id])
                | Some name \<Rightarrow>
                    (case insert_one reply (failover_doc now user_id name) c of
                       (None, c') \<Rightarrow> Inr (c', [Inserted user_id])
                     | (Some e, c') \<Rightarrow> Inr (c', [InsertError user_id])))))"

text \<open>The shape \<open>u\<close> followed only by decimal digits, at least one.\<close>

definition u_then_digits :: "string \<Rightarrow> bool" where
  "u_then_digits s =
     (case s of [] \<Rightarrow> False | c # ds \<Rightarrow> c = CHR ''u'' \<and> ds \<noteq> [] \<and> list_all is_digit ds)"

section \<open>\<open>eventual_consistency_experiment.py\<close>, the polling loop\<close>

text \<open>
  The loop reads from a secondary up to ten times. What the secondary holds when read
  number \<open>i\<close> arrives is given by \<open>sec i\<close>. The loop stops at the first read that
  returns a document whose \<open>user_id\<close> is the one written; the \<open>else\<close> of the
  \<open>for\<close> runs when no read did.
\<close>

datatype verdict = CaughtUp | ReplicationLag

fun poll_secondary ::
  "(nat \<Rightarrow> collection) \<Rightarrow> string \<Rightarrow> nat list \<Rightarrow> nat \<Rightarrow> verdict \<times> nat" where
  "poll_secondary sec uid [] reads = (ReplicationLag, reads)"
| "poll_secondary sec uid (i # rest) reads =
     (case find_one_id uid (sec i) of
        Some res \<Rightarrow>
          if user_id res = uid then (CaughtUp, Suc reads)
          else poll_secondary sec uid rest (Suc reads)
      | None \<Rightarrow> poll_secondary sec uid rest (Suc reads))"

definition poll_until_caught_up :: "(nat \<Rightarrow> collection) \<Rightarrow> string \<Rightarrow> verdict \<times> nat" where
  "poll_until_caught_up sec uid = poll_secondary sec uid [0..<10] 0"

text \<open>Read \<open>i\<close> returns a document whose \<open>user_id\<close> is \<open>uid\<close>.\<close>

definition read_matches :: "(nat \<Rightarrow> collection) \<Rightarrow> string \<Rightarrow> nat \<Rightarrow> bool" where
  "read_matches sec uid i =
     (case find_one_id uid (sec i) of Some res \<Rightarrow> user_id res = uid | None \<Rightarrow> False)"

section \<open>The replicated store the scripts exercise\<close>

text \<open>
  The scripts only call a database cluster; the cluster itself is not part of the
  repository. The definitions of this section follow the written description of that
  cluster: its write concerns, its log and its leader election.
\<close>

text \<open>
  Modelled from the spec: the identity and the role of a node (section 3), missing from
  the sources. Members are numbered from 0.
\<close>

type_synonym node_id = nat

datatype role = Leader | Follower | Candidate | Offline

subsection \<open>Write coordinator\<close>

text \<open>
  Modelled from the spec: the write concerns \<open>One\<close>, \<open>Majority\<close> and \<open>All\<close> of
  section 4.3, missing from the sources.
\<close>

datatype concern = ConcernOne | ConcernMajority | ConcernAll

text \<open>
  Modelled from the spec: the number of acknowledgments, the leader's own included, that
  a write concern asks for among \<open>n\<close> members of which \<open>live\<close> are alive (section 4.3:
  "One: self only; Majority: ceiling of (N+1)/2 of N members; All: every live member").
  The database server that counts acknowledgments is missing from the sources.
\<close>

definition required_acks :: "concern \<Rightarrow> nat \<Rightarrow> nat \<Rightarrow> nat" where
  "required_acks w n live =
     (case w of
        ConcernOne \<Rightarrow> 1
      | ConcernMajority \<Rightarrow> nat \<lceil>(real n + 1) / 2\<rceil>
      | ConcernAll \<Rightarrow> live)"

text \<open>
  Modelled from the spec: what reaches the coordinator while a write is pending, the
  acknowledgment of a follower or a message that bears a term, and how the write ends
  (section 4.3); missing from the sources.
\<close>

datatype link_event = AckFrom node_id | TermSeen nat

datatype write_outcome = Committed nat | LostLeadership | QuorumTimeout

text \<open>
  Modelled from the spec: the waiting loop of the Write Coordinator, missing from the
  sources (section 4.3: "count acknowledgments including self; once the count satisfies
  the concern, mark commitIndex and return success"; a higher term before that makes the
  write fail with \<open>LostLeadershipError\<close>; section 7: a concern that stays unsatisfied
  is a \<open>QuorumTimeoutError\<close>). \<open>acked\<close> is the set of members that have acknowledged,
  \<open>k\<close> the number of events consumed so far, \<open>cur\<close> the leader's term.
\<close>

fun await_quorum ::
  "nat \<Rightarrow> nat \<Rightarrow> node_id set \<Rightarrow> nat \<Rightarrow> link_event list \<Rightarrow> write_outcome" where
  "await_quorum need cur acked k [] =
     (if need \<le> card acked then Committed k else QuorumTimeout)"
| "await_quorum need cur acked k (AckFrom j # evs) =
     (if need \<le> card acked then Committed k
      else await_quorum need cur (insert j acked) (Suc k) evs)"
| "await_quorum need cur acked k (TermSeen t # evs) =
     (if need \<le> card acked then Committed k
      else if cur < t then LostLeadership
      else await_quorum need cur acked (Suc k) evs)"

text \<open>
  Modelled from the spec: the Write Coordinator of leader \<open>ldr\<close> deciding one write,
  missing from the sources; the count starts with the leader itself.
\<close>

definition coordinate ::
  "concern \<Rightarrow> nat \<Rightarrow> nat \<Rightarrow> node_id \<Rightarrow> nat \<Rightarrow> link_event list \<Rightarrow> write_outcome" where
  "coordinate w n live ldr cur evs = await_quorum (required_acks w n live) cur {ldr} 0 evs"

text \<open>The members that acknowledge in a run of events, and whether a higher term shows.\<close>

fun ackers :: "link_event list \<Rightarrow> node_id set" where
  "ackers [] = {}"
| "ackers (AckFrom j # evs) = insert j (ackers evs)"
| "ackers (TermSeen t # evs) = ackers evs"

fun higher_term_in :: "nat \<Rightarrow> link_event list \<Rightarrow> bool" where
  "higher_term_in cur [] = False"
| "higher_term_in cur (AckFrom j # evs) = higher_term_in cur evs"
| "higher_term_in cur (TermSeen t # evs) = (cur < t \<or> higher_term_in cur evs)"

definition ack_count :: "node_id \<Rightarrow> link_event list \<Rightarrow> nat" where
  "ack_count ldr evs = card (insert ldr (ackers evs))"

text \<open>
  The count reaches \<open>need\<close> for the first time after exactly \<open>j\<close> events, none of
  which bears a higher term.
\<close>

definition quorum_at ::
  "nat \<Rightarrow> nat \<Rightarrow> node_id set \<Rightarrow> link_event list \<Rightarrow> nat \<Rightarrow> bool" where
  "quorum_at need cur acked evs j \<longleftrightarrow>
     j \<le> length evs
     \<and> \<not> higher_term_in cur (take j evs)
     \<and> need \<le> card (acked \<union> ackers (take j evs))
     \<and> (\<forall>i < j. card (acked \<union> ackers (take i evs)) < need)"

subsection \<open>Log store, replication link and local reads\<close>

text \<open>
  Modelled from the spec: the \<open>LogEntry\<close> and \<open>Node\<close> of section 3, missing from the
  sources.
\<close>

record log_entry =
  le_index :: nat
  le_term :: nat
  le_key :: string
  le_value :: string
  le_token :: nat

record node =
  node_role :: role
  node_term :: nat
  node_log :: "log_entry list"
  commit_index :: nat

type_synonym cluster = "node_id \<Rightarrow> node"

text \<open>
  Modelled from the spec: the errors of section 7 and the results of \<open>Write\<close> and
  \<open>Read\<close> of section 6, missing from the sources. \<open>Ack\<close> carries the committed index
  and the causal token.
\<close>

datatype store_error =
    NotLeaderError
  | LostLeadershipError
  | StaleTermError
  | QuorumTimeoutError
  | CausalityNotYetSatisfied

datatype write_result = Ack nat nat | WriteError store_error

datatype read_result = Value string | StaleData | NotFound

text \<open>
  Modelled from the spec: \<open>append\<close> of the Log Store, missing from the sources (section
  4.1: it fails with \<open>StaleTermError\<close> when the caller's term is behind the node's;
  section 3: indices increase strictly). The causal token of an entry is its index.
\<close>

definition log_append :: "nat \<Rightarrow> string \<Rightarrow> string \<Rightarrow> node \<Rightarrow> store_error + log_entry \<times> node" where
  "log_append t k v nd =
     (if t < node_term nd then Inl StaleTermError
      else
        (let i = Suc (if node_log nd = [] then 0 else le_index (last (node_log nd)));
             e = \<lparr> le_index = i, le_term = t, le_key = k, le_value = v, le_token = i \<rparr>
         in Inr (e, nd\<lparr> node_log := node_log nd @ [e] \<rparr>)))"

text \<open>
  Modelled from the spec: the Replication Link, missing from the sources (section 2:
  entries are "pushed over Replication Links, followers append to their Log Stores,
  acknowledgments flow back"). A follower whose acknowledgment the coordinator has
  received holds a copy of the entry.
\<close>

definition deliver :: "node_id \<Rightarrow> log_entry \<Rightarrow> cluster \<Rightarrow> link_event \<Rightarrow> cluster" where
  "deliver ldr e cl ev =
     (case ev of
        AckFrom j \<Rightarrow>
          if j = ldr then cl else cl(j := (cl j)\<lparr> node_log := node_log (cl j) @ [e] \<rparr>)
      | TermSeen t \<Rightarrow> cl)"

text \<open>
  Modelled from the spec: the number of live members, those whose role is not
  \<open>Offline\<close>, that concern \<open>All\<close> refers to; missing from the sources.
\<close>

definition live_members :: "nat \<Rightarrow> cluster \<Rightarrow> nat" where
  "live_members n cl = length (filter (\<lambda>i. node_role (cl i) \<noteq> Offline) [0..<n])"

text \<open>
  Modelled from the spec: \<open>write\<close> of the Write Coordinator (here \<open>client_write\<close>), missing from the sources
  (section 4.3). A node that is not the leader rejects the write; the leader appends the
  entry to its own log, and the events \<open>evs\<close> that reach it decide the outcome. On
  success the commit index and the causal token are the index of the entry. Followers
  that have not acknowledged by then have not received the entry yet.
\<close>

definition client_write ::
  "nat \<Rightarrow> cluster \<Rightarrow> node_id \<Rightarrow> string \<Rightarrow> string \<Rightarrow> concern \<Rightarrow> link_event list
     \<Rightarrow> write_result \<times> cluster" where
  "client_write n cl ldr k v w evs =
     (if node_role (cl ldr) \<noteq> Leader then (WriteError NotLeaderError, cl)
      else
        case log_append (node_term (cl ldr)) k v (cl ldr) of
          Inl err \<Rightarrow> (WriteError err, cl)
        | Inr (e, nd) \<Rightarrow>
            (case coordinate w n (live_members n cl) ldr (node_term nd) evs of
               Committed j \<Rightarrow>
                 (Ack (le_index e) (le_token e),
                  foldl (deliver ldr e) (cl(ldr := nd\<lparr> commit_index := le_index e \<rparr>)) (take j evs))
             | LostLeadership \<Rightarrow>
                 (WriteError LostLeadershipError,
                  foldl (deliver ldr e) (cl(ldr := nd))
                    (takeWhile (\<lambda>ev. case ev of TermSeen t \<Rightarrow> \<not> node_term nd < t | AckFrom j \<Rightarrow> True) evs))
             | QuorumTimeout \<Rightarrow>
                 (WriteError QuorumTimeoutError, foldl (deliver ldr e) (cl(ldr := nd)) evs)))"

text \<open>
  Modelled from the spec: a read with concern \<open>Local\<close>, missing from the sources (section
  4.4: it "returns whatever the targeted node's log currently holds for key, regardless
  of commit status"): the value of the newest entry for the key in that node's log.
\<close>

definition read_local :: "cluster \<Rightarrow> node_id \<Rightarrow> string \<Rightarrow> read_result" where
  "read_local cl i k =
     (case find (\<lambda>e. le_key e = k) (rev (node_log (cl i))) of
        None \<Rightarrow> NotFound
      | Some e \<Rightarrow> Value (le_value e))"

text \<open>Three members in term 1, member 0 leading, all logs empty.\<close>

definition three_nodes :: cluster where
  "three_nodes i =
     \<lparr> node_role = (if i = 0 then Leader else Follower), node_term = 1,
       node_log = [], commit_index = 0 \<rparr>"

subsection \<open>Leader election\<close>

text \<open>
  Modelled from the spec: the state of the Consensus Module, missing from the sources
  (sections 3 and 4.2): role and term of every member, the vote a member has given in
  its current term, and the vote messages sent so far (voter, term, candidate).
\<close>

record election_state =
  role_of :: "node_id \<Rightarrow> role"
  cur_term :: "node_id \<Rightarrow> nat"
  voted_for :: "node_id \<Rightarrow> node_id option"
  votes :: "(node_id \<times> nat \<times> node_id) list"

datatype election_event =
    ElectionTimeout node_id
  | VoteRequest node_id node_id nat
  | MajorityReceived node_id
  | HigherTermSeen node_id nat
  | LeaderSeen node_id
  | Crash node_id
  | Restart node_id

text \<open>The votes of members for candidate \<open>c\<close> in term \<open>t\<close>.\<close>

definition votes_for :: "nat \<Rightarrow> election_state \<Rightarrow> nat \<Rightarrow> node_id \<Rightarrow> nat" where
  "votes_for n s t c = length (filter (\<lambda>v. (v, t, c) \<in> set (votes s)) [0..<n])"

text \<open>
  Modelled from the spec: the transitions of the Consensus Module among \<open>n\<close> members,
  missing from the sources (section 4.2).
  \<^item> \<open>ElectionTimeout i\<close>: no heartbeat in time; a follower becomes candidate, and a
    candidate without majority retries, each with the term incremented.
  \<^item> \<open>VoteRequest v c t\<close>: the request of candidate \<open>c\<close> for term \<open>t\<close> reaches member
    \<open>v\<close>. A higher term always wins; at an equal term the first request seen wins, so
    a member that has voted in the term gives no second vote.
  \<^item> \<open>MajorityReceived c\<close>: a candidate that holds the votes of a strict majority of
    the members for its term becomes leader.
  \<^item> \<open>HigherTermSeen i t\<close>: a message with a higher term makes a leader or candidate a
    follower at once.
  \<^item> \<open>LeaderSeen i\<close>: a candidate that finds another member leading steps back.
  \<^item> \<open>Crash\<close> and \<open>Restart\<close>: a member goes offline and comes back as follower; its
    term and its vote are kept across the restart.
  An event whose condition does not hold changes nothing.
\<close>

fun handle :: "nat \<Rightarrow> election_state \<Rightarrow> election_event \<Rightarrow> election_state" where
  "handle n s (ElectionTimeout i) =
     (if i < n \<and> (role_of s i = Follower \<or> role_of s i = Candidate)
      then s\<lparr> role_of := (role_of s)(i := Candidate),
              cur_term := (cur_term s)(i := cur_term s i + 1),
              voted_for := (voted_for s)(i := None) \<rparr>
      else s)"
| "handle n s (VoteRequest v c t) =
     (if v < n \<and> c < n \<and> role_of s v \<noteq> Offline
      then if cur_term s v < t
           then s\<lparr> role_of := (role_of s)(v := Follower),
                   cur_term := (cur_term s)(v := t),
                   voted_for := (voted_for s)(v := Some c),
                   votes := (v, t, c) # votes s \<rparr>
           else if cur_term s v = t \<and> voted_for s v = None
           then s\<lparr> voted_for := (voted_for s)(v := Some c),
                   votes := (v, t, c) # votes s \<rparr>
           else s
      else s)"
| "handle n s (MajorityReceived c) =
     (if c < n \<and> role_of s c = Candidate \<and> n < 2 * votes_for n s (cur_term s c) c
      then s\<lparr> role_of := (role_of s)(c := Leader) \<rparr>
      else s)"
| "handle n s (HigherTermSeen i t) =
     (if i < n \<and> role_of s i \<noteq> Offline \<and> cur_term s i < t
      then s\<lparr> role_of := (role_of s)(i := Follower),
              cur_term := (cur_term s)(i := t),
              voted_for := (voted_for s)(i := None) \<rparr>
      else s)"
| "handle n s (LeaderSeen i) =
     (if i < n \<and> role_of s i = Candidate
      then s\<lparr> role_of := (role_of s)(i := Follower) \<rparr>
      else s)"
| "handle n s (Crash i) =
     (if i < n then s\<lparr> role_of := (role_of s)(i := Offline) \<rparr> else s)"
| "handle n s (Restart i) =
     (if i < n \<and> role_of s i = Offline
      then s\<lparr> role_of := (role_of s)(i := Follower) \<rparr>
      else s)"

text \<open>
  Modelled from the spec: the cluster states that can be reached, missing from the
  sources: every member starts as follower in term 0, and any sequence of events follows.
\<close>

definition initial_state :: election_state where
  "initial_state =
     \<lparr> role_of = (\<lambda>i. Follower), cur_term = (\<lambda>i. 0), voted_for = (\<lambda>i. None), votes = [] \<rparr>"

definition run :: "nat \<Rightarrow> election_event list \<Rightarrow> election_state" where
  "run n evs = foldl (handle n) initial_state evs"

text \<open>The members that hold the role \<open>Leader\<close> for term \<open>t\<close>.\<close>

definition leaders_in_term :: "nat \<Rightarrow> election_state \<Rightarrow> nat \<Rightarrow> node_id list" where
  "leaders_in_term n s t = filter (\<lambda>i. role_of s i = Leader \<and> cur_term s i = t) [0..<n]"

text \<open>
  What the events keep true: a vote sent is not from a term ahead of its voter, and is
  the voter's recorded vote while the voter stays in that term; no member has sent two
  different votes in one term; every leader holds a majority of the votes of its term.
\<close>

definition votes_current :: "election_state \<Rightarrow> bool" where
  "votes_current s \<longleftrightarrow>
     (\<forall>v t c. (v, t, c) \<in> set (votes s) \<longrightarrow>
        t \<le> cur_term s v \<and> (t = cur_term s v \<longrightarrow> voted_for s v = Some c))"

definition one_vote_per_term :: "election_state \<Rightarrow> bool" where
  "one_vote_per_term s \<longleftrightarrow>
     (\<forall>v t c c'. (v, t, c) \<in> set (votes s) \<longrightarrow> (v, t, c') \<in> set (votes s) \<longrightarrow> c = c')"

definition leaders_elected :: "nat \<Rightarrow> election_state \<Rightarrow> bool" where
  "leaders_elected n s \<longleftrightarrow>
     (\<forall>i < n. role_of s i = Leader \<longrightarrow> n < 2 * votes_for n s (cur_term s i) i)"

definition vote_inv :: "nat \<Rightarrow> election_state \<Rightarrow> bool" where
  "vote_inv n s \<longleftrightarrow> votes_current s \<and> one_vote_per_term s \<and> leaders_elected n s"

section \<open>Sample data\<close>

text \<open>
  A document as the consistency experiments write it, \<open>_id\<close> and \<open>user_id\<close> equal, and
  a secondary that receives such a document only before its fourth read.
\<close>

definition old_profile :: "string \<Rightarrow> doc" where
  "old_profile s =
     \<lparr> doc_id = s, user_id = s, username = ''rose_eventual'',
       email = ''rose_eventual@example.com'', marker = ''inserted_for_eventual_test'',
       stamp = 0 \<rparr>"

definition lagging_secondary :: "nat \<Rightarrow> collection" where
  "lagging_secondary i = (if i < 3 then [] else [old_profile ''uid_1730000000''])"

text \<open>
  A clock that stands still; a server that serves every insert; and one that refuses the
  insert of the third baseline document and serves the others.
\<close>

definition still_clock :: "nat \<Rightarrow> real" where
  "still_clock i = 0"

definition all_served :: "nat \<Rightarrow> server_reply" where
  "all_served i = Served"

definition third_refused :: "nat \<Rightarrow> server_reply" where
  "third_refused i = (if i = 3 then Refused PyMongoError else Served)"

text \<open>The five baseline documents.\<close>

definition baseline_docs :: "(nat \<Rightarrow> real) \<Rightarrow> collection" where
  "baseline_docs now =
     [baseline_doc now 1 ''u001'' ''1'', baseline_doc now 2 ''u002'' ''2'',
      baseline_doc now 3 ''u003'' ''3'', baseline_doc now 4 ''u004'' ''4'',
      baseline_doc now 5 ''u005'' ''5'']"

section \<open>Facts about the string functions\<close>

lemma str_nat_small: "n < 10 \<Longrightarrow> str_nat n = [digit_char n]"
  by (subst str_nat.simps) simp

lemma digit_chars:
  "digit_char 1 = CHR ''1''" "digit_char (Suc 0) = CHR ''1''" "digit_char 2 = CHR ''2''"
  "digit_char 3 = CHR ''3''" "digit_char 4 = CHR ''4''" "digit_char 5 = CHR ''5''"
  "digit_char 8 = CHR ''8''"
  by (simp_all add: digit_char_def)

lemma replicate_two: "replicate 2 c = [c, c]"
  by (simp add: numeral_2_eq_2)

text \<open>A number of one digit is printed whatever the limit is.\<close>

lemma str_int_digit: "0 \<le> i \<Longrightarrow> i < 10 \<Longrightarrow> str_int maxd i = Some [digit_char (nat i)]"
  by (simp add: str_int_def str_nat_small Let_def)

lemma fmt03_digit:
  "0 \<le> i \<Longrightarrow> i < 10 \<Longrightarrow> fmt03 maxd i = Some [CHR ''0'', CHR ''0'', digit_char (nat i)]"
  by (simp add: fmt03_def str_int_digit str_nat_small replicate_two Let_def)

lemma baseline_names:
  "str_int maxd 1 = Some ''1''" "str_int maxd 2 = Some ''2''" "str_int maxd 3 = Some ''3''"
  "str_int maxd 4 = Some ''4''" "str_int maxd 5 = Some ''5''" "str_int maxd 8 = Some ''8''"
  by (simp_all add: str_int_digit digit_chars)

lemma baseline_ids:
  "fmt03 maxd 1 = Some ''001''" "fmt03 maxd 2 = Some ''002''" "fmt03 maxd 3 = Some ''003''"
  "fmt03 maxd 4 = Some ''004''" "fmt03 maxd 5 = Some ''005''" "fmt03 maxd 8 = Some ''008''"
  by (simp_all add: fmt03_digit digit_chars)

lemma py_int_007: "py_int maxd ''007'' = Some 7"
  by (simp add: py_int_def is_space_def is_digit_def digit_val_def)

text \<open>
  An identifier \<open>uid_...\<close> loses only its first letter to \<open>lstrip("u")\<close>; what is left
  starts with \<open>i\<close> and is no number, whatever follows.
\<close>

lemma uid_not_a_number: "py_int maxd (lstrip_u (''uid_'' @ ds)) = None"
  by (simp add: lstrip_u_def py_int_def is_space_def is_digit_def)

subsection \<open>Numbers at the digit limit\<close>

lemma length_str_nat_power: "length (str_nat (10 ^ k)) = Suc k"
proof (induction k)
  case 0
  show ?case by (simp add: str_nat_small)
next
  case (Suc k)
  have "\<not> (10::nat) ^ Suc k < 10" by simp
  then have "str_nat (10 ^ Suc k) = str_nat (10 ^ Suc k div 10) @ [digit_char (10 ^ Suc k)]"
    by (subst str_nat.simps) (simp only: if_False)
  with Suc show ?case by simp
qed

lemma scan_nines:
  "\<exists>v. scan_digits False cnt acc (replicate k CHR ''9'') = Some (v, cnt + k, [])
       \<and> v + 1 = (acc + 1) * 10 ^ k"
proof (induction k arbitrary: cnt acc)
  case 0
  show ?case by simp
next
  case (Suc k)
  from Suc [of "Suc cnt" "10 * acc + 9"] obtain v where
    v: "scan_digits False (Suc cnt) (10 * acc + 9) (replicate k CHR ''9'') = Some (v, Suc cnt + k, [])"
    and e: "v + 1 = (10 * acc + 9 + 1) * 10 ^ k" by blast
  have "scan_digits False cnt acc (replicate (Suc k) CHR ''9'') = Some (v, cnt + Suc k, [])"
    using v by (simp add: is_digit_def digit_val_def)
  moreover have "v + 1 = (acc + 1) * 10 ^ Suc k"
    using e by (simp add: algebra_simps)
  ultimately show ?case by blast
qed

text \<open>
  The text of \<open>k\<close> nines, with \<open>k\<close> the limit itself, is still read by \<open>int\<close>; the
  successor of the number has one digit more and cannot be printed.
\<close>

lemma py_int_nines:
  assumes "0 < k" and "k \<le> maxd"
  shows "py_int maxd (replicate k CHR ''9'') = Some (10 ^ k - 1)"
proof -
  from assms(1) obtain j where k: "k = Suc j" by (cases k) auto
  from scan_nines [of 0 0 k] obtain v where
    v: "scan_digits False 0 0 (replicate k CHR ''9'') = Some (v, k, [])"
    and e: "v + 1 = 10 ^ k" by auto
  from e have "int v = 10 ^ k - 1"
    by (metis add_diff_cancel_right' of_nat_1 of_nat_add of_nat_numeral of_nat_power)
  with v assms(2) show ?thesis
    by (simp add: py_int_def is_space_def k)
qed

lemma successor_not_printed:
  assumes "640 \<le> maxd"
  shows "fmt03 maxd (10 ^ maxd) = None"
proof -
  have "nat \<bar>(10::int) ^ maxd\<bar> = 10 ^ maxd"
    by (simp add: nat_power_eq)
  then have "str_int maxd (10 ^ maxd) = None"
    using assms by (simp add: str_int_def Let_def nat_power_eq length_str_nat_power)
  then show ?thesis by (simp add: fmt03_def)
qed

subsection \<open>The order of strings\<close>

lemma str_less_irrefl: "\<not> str_less a a"
  by (induction a) auto

lemma str_less_trans: "str_less a b \<Longrightarrow> str_less b c \<Longrightarrow> str_less a c"
proof (induction a b arbitrary: c rule: str_less.induct)
  case (2 y ys)
  then show ?case by (cases c) auto
next
  case (4 x xs y ys)
  then show ?case by (cases c) auto
qed auto

lemma str_less_total: "\<not> str_less a b \<Longrightarrow> \<not> str_less b a \<Longrightarrow> a = b"
proof (induction a b rule: str_less.induct)
  case (4 x xs y ys)
  then have "(of_char x :: nat) = of_char y" by auto
  then have "x = y" by simp
  with 4 show ?case by auto
qed auto

lemma str_not_less_trans:
  "\<not> str_less a b \<Longrightarrow> \<not> str_less b c \<Longrightarrow> \<not> str_less a c"
  by (metis str_less_total str_less_trans)

text \<open>Every \<open>uid_...\<close> identifier sorts after every \<open>u\<close> followed by a digit.\<close>

lemma uid_sorts_last: "is_digit c \<Longrightarrow> str_less (CHR ''u'' # c # ds) (''uid_'' @ ts)"
  by (simp add: is_digit_def Let_def)

section \<open>Facts about the collection\<close>

lemma largest_user_id_member: "largest_user_id best ds \<in> set (best # ds)"
  by (induction ds arbitrary: best) (auto split: if_splits)

lemma largest_user_id_ge_best:
  "\<not> str_less (user_id (largest_user_id best ds)) (user_id best)"
proof (induction ds arbitrary: best)
  case Nil
  show ?case by (simp add: str_less_irrefl)
next
  case (Cons d ds)
  show ?case
  proof (cases "str_less (user_id best) (user_id d)")
    case True
    have "\<not> str_less (user_id (largest_user_id d ds)) (user_id d)" by (rule Cons.IH)
    with True show ?thesis by (auto dest: str_less_trans)
  next
    case False
    with Cons.IH [of best] show ?thesis by simp
  qed
qed

lemma largest_user_id_max:
  "d \<in> set (best # ds) \<Longrightarrow> \<not> str_less (user_id (largest_user_id best ds)) (user_id d)"
proof (induction ds arbitrary: best)
  case Nil
  then show ?case by (simp add: str_less_irrefl)
next
  case (Cons x xs)
  let ?b = "if str_less (user_id best) (user_id x) then x else best"
  have ge: "\<not> str_less (user_id (largest_user_id ?b xs)) (user_id ?b)"
    by (rule largest_user_id_ge_best)
  consider "d = best" | "d = x" | "d \<in> set xs" using Cons.prems by auto
  then show ?case
  proof cases
    case 1
    have "\<not> str_less (user_id ?b) (user_id best)"
      by (auto simp: str_less_irrefl dest: str_less_trans)
    with ge 1 show ?thesis by (auto dest: str_not_less_trans simp del: str_less.simps)
  next
    case 2
    have "\<not> str_less (user_id ?b) (user_id x)" by (auto simp: str_less_irrefl)
    with ge 2 show ?thesis by (auto dest: str_not_less_trans)
  next
    case 3
    then have "d \<in> set (?b # xs)" by simp
    from Cons.IH [OF this] show ?thesis by simp
  qed
qed

text \<open>The sorted \<open>find_one\<close> returns a document of the collection with a largest \<open>user_id\<close>.\<close>

lemma find_one_sort_desc_largest:
  "find_one_sort_desc c = Some d \<Longrightarrow>
     d \<in> set c \<and> (\<forall>d' \<in> set c. \<not> str_less (user_id d) (user_id d'))"
  using largest_user_id_member largest_user_id_max by (cases c) auto

section \<open>The baseline step\<close>

lemma baseline_insert_served:
  assumes "fmt03 maxd (int i) = Some num" and "str_int maxd (int i) = Some name"
    and "replies i = Served" and "''u'' @ num \<notin> set (map doc_id c)"
  shows "baseline_insert maxd now replies (c, ev) i =
     Inr (c @ [baseline_doc now i (''u'' @ num) name], ev @ [Inserted (''u'' @ num)])"
  using assms by (simp add: baseline_insert_def insert_one_def baseline_doc_def Let_def)

lemma baseline_insert_refused:
  assumes "fmt03 maxd (int i) = Some num" and "str_int maxd (int i) = Some name"
    and "replies i = Refused PyMongoError"
  shows "baseline_insert maxd now replies (c, ev) i =
     Inr (c, ev @ [UnexpectedError (''u'' @ num)])"
  using assms by (simp add: baseline_insert_def insert_one_def Let_def)

text \<open>
  Whatever happens to the inserts, the loop body raises nothing for a number of one
  digit: every exception of the insert is caught.
\<close>

lemma baseline_insert_completes:
  "i < 10 \<Longrightarrow> \<exists>st'. baseline_insert maxd now replies st i = Inr st'"
  by (auto simp: baseline_insert_def fmt03_digit str_int_digit insert_one_def Let_def
      split: server_reply.splits py_error.splits option.splits prod.splits)

lemma baseline_loop_served:
  assumes "\<forall>i \<in> {1, 2, 3, 4, 5}. replies i = Served"
  shows "baseline_loop maxd now replies ([], []) [1, 2, 3, 4, 5] =
     Inr (baseline_docs now, map Inserted [''u001'', ''u002'', ''u003'', ''u004'', ''u005''])"
proof -
  from assms have r: "replies (Suc 0) = Served" "replies 2 = Served" "replies 3 = Served"
    "replies 4 = Served" "replies 5 = Served" by simp_all
  have s1: "baseline_insert maxd now replies ([], []) (Suc 0) =
      Inr ([baseline_doc now (Suc 0) ''u001'' ''1''], [Inserted ''u001''])"
    using baseline_insert_served [of maxd "Suc 0" "''001''" "''1''" replies "[]" now "[]"] r
    by (simp add: baseline_ids baseline_names)
  have s2: "baseline_insert maxd now replies
        ([baseline_doc now (Suc 0) ''u001'' ''1''], [Inserted ''u001'']) 2 =
      Inr ([baseline_doc now (Suc 0) ''u001'' ''1'', baseline_doc now 2 ''u002'' ''2''],
           [Inserted ''u001'', Inserted ''u002''])"
    using baseline_insert_served [of maxd 2 "''002''" "''2''" replies
        "[baseline_doc now (Suc 0) ''u001'' ''1'']" now "[Inserted ''u001'']"] r
    by (simp add: baseline_ids baseline_names baseline_doc_def)
  have s3: "baseline_insert maxd now replies
        ([baseline_doc now (Suc 0) ''u001'' ''1'', baseline_doc now 2 ''u002'' ''2''],
         [Inserted ''u001'', Inserted ''u002'']) 3 =
      Inr ([baseline_doc now (Suc 0) ''u001'' ''1'', baseline_doc now 2 ''u002'' ''2'',
            baseline_doc now 3 ''u003'' ''3''],
           [Inserted ''u001'', Inserted ''u002'', Inserted ''u003''])"
    using baseline_insert_served [of maxd 3 "''003''" "''3''" replies
        "[baseline_doc now (Suc 0) ''u001'' ''1'', baseline_doc now 2 ''u002'' ''2'']" now
        "[Inserted ''u001'', Inserted ''u002'']"] r
    by (simp add: baseline_ids baseline_names baseline_doc_def)
  have s4: "baseline_insert maxd now replies
        ([baseline_doc now (Suc 0) ''u001'' ''1'', baseline_doc now 2 ''u002'' ''2'',
          baseline_doc now 3 ''u003'' ''3''],
         [Inserted ''u001'', Inserted ''u002'', Inserted ''u003'']) 4 =
      Inr ([baseline_doc now (Suc 0) ''u001'' ''1'', baseline_doc now 2 ''u002'' ''2'',
            baseline_doc now 3 ''u003'' ''3'', baseline_doc now 4 ''u004'' ''4''],
           [Inserted ''u001'', Inserted ''u002'', Inserted ''u003'', Inserted ''u004''])"
    using baseline_insert_served [of maxd 4 "''004''" "''4''" replies
        "[baseline_doc now (Suc 0) ''u001'' ''1'', baseline_doc now 2 ''u002'' ''2'',
          baseline_doc now 3 ''u003'' ''3'']" now
        "[Inserted ''u001'', Inserted ''u002'', Inserted ''u003'']"] r
    by (simp add: baseline_ids baseline_names baseline_doc_def)
  have s5: "baseline_insert maxd now replies
        ([baseline_doc now (Suc 0) ''u001'' ''1'', baseline_doc now 2 ''u002'' ''2'',
          baseline_doc now 3 ''u003'' ''3'', baseline_doc now 4 ''u004'' ''4''],
         [Inserted ''u001'', Inserted ''u002'', Inserted ''u003'', Inserted ''u004'']) 5 =
      Inr ([baseline_doc now (Suc 0) ''u001'' ''1'', baseline_doc now 2 ''u002'' ''2'',
            baseline_doc now 3 ''u003'' ''3'', baseline_doc now 4 ''u004'' ''4'',
            baseline_doc now 5 ''u005'' ''5''],
           [Inserted ''u001'', Inserted ''u002'', Inserted ''u003'', Inserted ''u004'',
            Inserted ''u005''])"
    using baseline_insert_served [of maxd 5 "''005''" "''5''" replies
        "[baseline_doc now (Suc 0) ''u001'' ''1'', baseline_doc now 2 ''u002'' ''2'',
          baseline_doc now 3 ''u003'' ''3'', baseline_doc now 4 ''u004'' ''4'']" now
        "[Inserted ''u001'', Inserted ''u002'', Inserted ''u003'', Inserted ''u004'']"] r
    by (simp add: baseline_ids baseline_names baseline_doc_def)
  show ?thesis
    by (simp add: s1 s2 s3 s4 s5 baseline_docs_def)
qed

text \<open>
  C8, as the code has it. When \<open>userProfile\<close> holds documents at the start of the
  baseline step, the step deletes them all before it inserts; provided each of the five
  \<open>insert_one\<close> calls succeeds, the step completes and the collection is then exactly
  the five fresh baseline documents, with the ids \<open>u001\<close> to \<open>u005\<close>, each reported
  as inserted. Nothing of the old content is left, not even a document that had one of
  these ids.
\<close>

theorem setup_baseline_leaves_five:
  assumes "0 < count_documents c" and "\<forall>i \<in> {1, 2, 3, 4, 5}. replies i = Served"
  shows "setup_baseline maxd now replies c =
           Inr (baseline_docs now, map Inserted [''u001'', ''u002'', ''u003'', ''u004'', ''u005''])
       \<and> map doc_id (baseline_docs now) = [''u001'', ''u002'', ''u003'', ''u004'', ''u005'']"
proof -
  from assms(1) have "setup_baseline maxd now replies c =
      baseline_loop maxd now replies ([], []) [1, 2, 3, 4, 5]"
    by (simp add: setup_baseline_def delete_many_def Let_def del: baseline_loop.simps)
  then have "setup_baseline maxd now replies c =
      Inr (baseline_docs now, map Inserted [''u001'', ''u002'', ''u003'', ''u004'', ''u005''])"
    by (simp only: baseline_loop_served [OF assms(2)])
  moreover have "map doc_id (baseline_docs now) = [''u001'', ''u002'', ''u003'', ''u004'', ''u005'']"
    by (simp add: baseline_docs_def baseline_doc_def)
  ultimately show ?thesis by (intro conjI)
qed

theorem setup_baseline_leaves_five_witness:
  "0 < count_documents [old_profile ''u003'', old_profile ''uid_1730000000'']
   \<and> all_served 1 = Served \<and> all_served 2 = Served \<and> all_served 3 = Served
   \<and> all_served 4 = Served \<and> all_served 5 = Served
   \<and> setup_baseline 4300 still_clock all_served
        [old_profile ''u003'', old_profile ''uid_1730000000''] =
       Inr (baseline_docs still_clock,
            map Inserted [''u001'', ''u002'', ''u003'', ''u004'', ''u005''])"
proof -
  have h: "0 < count_documents [old_profile ''u003'', old_profile ''uid_1730000000'']"
    by (simp add: count_documents_def)
  have a: "\<forall>i \<in> {1, 2, 3, 4, 5}. all_served i = Served"
    by (simp add: all_served_def)
  from setup_baseline_leaves_five [OF h a, of 4300 still_clock]
  have "setup_baseline 4300 still_clock all_served
        [old_profile ''u003'', old_profile ''uid_1730000000''] =
       Inr (baseline_docs still_clock,
            map Inserted [''u001'', ''u002'', ''u003'', ''u004'', ''u005''])"
    by (elim conjE)
  with h show ?thesis by (simp add: all_served_def)
qed

text \<open>
  C8, as the claim words it, fails. The collection holds a document at the start; the
  insert of \<open>u003\<close> is refused with an error that is not \<open>DuplicateKeyError\<close>; the
  handler for every other exception prints and the loop goes on. The step completes and
  the collection holds four documents.
\<close>

theorem setup_baseline_third_refused:
  "0 < count_documents [old_profile ''u003'']
   \<and> setup_baseline 4300 still_clock third_refused [old_profile ''u003''] =
       Inr ([baseline_doc still_clock 1 ''u001'' ''1'', baseline_doc still_clock 2 ''u002'' ''2'',
             baseline_doc still_clock 4 ''u004'' ''4'', baseline_doc still_clock 5 ''u005'' ''5''],
            [Inserted ''u001'', Inserted ''u002'', UnexpectedError ''u003'', Inserted ''u004'',
             Inserted ''u005''])"
proof -
  have h: "0 < count_documents [old_profile ''u003'']"
    by (simp add: count_documents_def)
  have r: "third_refused (Suc 0) = Served" "third_refused 2 = Served"
    "third_refused 3 = Refused PyMongoError" "third_refused 4 = Served" "third_refused 5 = Served"
    by (simp_all add: third_refused_def)
  let ?d1 = "baseline_doc still_clock (Suc 0) ''u001'' ''1''"
  let ?d2 = "baseline_doc still_clock 2 ''u002'' ''2''"
  let ?d4 = "baseline_doc still_clock 4 ''u004'' ''4''"
  let ?d5 = "baseline_doc still_clock 5 ''u005'' ''5''"
  have s1: "baseline_insert 4300 still_clock third_refused ([], []) (Suc 0) =
      Inr ([?d1], [Inserted ''u001''])"
    using baseline_insert_served [of 4300 "Suc 0" "''001''" "''1''" third_refused "[]"
        still_clock "[]"] r
    by (simp add: baseline_ids baseline_names)
  have s2: "baseline_insert 4300 still_clock third_refused ([?d1], [Inserted ''u001'']) 2 =
      Inr ([?d1, ?d2], [Inserted ''u001'', Inserted ''u002''])"
    using baseline_insert_served [of 4300 2 "''002''" "''2''" third_refused "[?d1]"
        still_clock "[Inserted ''u001'']"] r
    by (simp add: baseline_ids baseline_names baseline_doc_def)
  have s3: "baseline_insert 4300 still_clock third_refused
        ([?d1, ?d2], [Inserted ''u001'', Inserted ''u002'']) 3 =
      Inr ([?d1, ?d2], [Inserted ''u001'', Inserted ''u002'', UnexpectedError ''u003''])"
    using baseline_insert_refused [of 4300 3 "''003''" "''3''" third_refused still_clock
        "[?d1, ?d2]" "[Inserted ''u001'', Inserted ''u002'']"] r
    by (simp add: baseline_ids baseline_names)
  have s4: "baseline_insert 4300 still_clock third_refused
        ([?d1, ?d2], [Inserted ''u001'', Inserted ''u002'', UnexpectedError ''u003'']) 4 =
      Inr ([?d1, ?d2, ?d4],
           [Inserted ''u001'', Inserted ''u002'', UnexpectedError ''u003'', Inserted ''u004''])"
    using baseline_insert_served [of 4300 4 "''004''" "''4''" third_refused "[?d1, ?d2]"
        still_clock "[Inserted ''u001'', Inserted ''u002'', UnexpectedError ''u003'']"] r
    by (simp add: baseline_ids baseline_names baseline_doc_def)
  have s5: "baseline_insert 4300 still_clock third_refused
        ([?d1, ?d2, ?d4],
         [Inserted ''u001'', Inserted ''u002'', UnexpectedError ''u003'', Inserted ''u004'']) 5 =
      Inr ([?d1, ?d2, ?d4, ?d5],
           [Inserted ''u001'', Inserted ''u002'', UnexpectedError ''u003'', Inserted ''u004'',
            Inserted ''u005''])"
    using baseline_insert_served [of 4300 5 "''005''" "''5''" third_refused "[?d1, ?d2, ?d4]"
        still_clock
        "[Inserted ''u001'', Inserted ''u002'', UnexpectedError ''u003'', Inserted ''u004'']"] r
    by (simp add: baseline_ids baseline_names baseline_doc_def)
  have "setup_baseline 4300 still_clock third_refused [old_profile ''u003''] =
      baseline_loop 4300 still_clock third_refused ([], []) [1, 2, 3, 4, 5]"
    by (simp add: setup_baseline_def count_documents_def delete_many_def Let_def
        del: baseline_loop.simps)
  also have "\<dots> = Inr ([?d1, ?d2, ?d4, ?d5],
           [Inserted ''u001'', Inserted ''u002'', UnexpectedError ''u003'', Inserted ''u004'',
            Inserted ''u005''])"
    by (simp add: s1 s2 s3 s4 s5)
  finally show ?thesis using h by simp
qed

section \<open>The insertion after the failover\<close>

lemma next_num_raises:
  "next_num maxd c = Inl e \<longleftrightarrow>
     e = ValueError \<and>
     (\<exists>d. find_one_sort_desc c = Some d \<and> py_int maxd (lstrip_u (user_id d)) = None)"
  by (auto simp: next_num_def split: option.splits)

text \<open>
  The step ends in an exception in two cases only, both a \<open>ValueError\<close>: the number
  cannot be read, or the next number cannot be printed.
\<close>

lemma insert_after_failover_raises:
  "insert_after_failover maxd now reply c = Inl e \<longleftrightarrow>
     e = ValueError \<and>
     (next_num maxd c = Inl ValueError \<or> (\<exists>n. next_num maxd c = Inr n \<and> fmt03 maxd n = None))"
proof (cases "next_num maxd c")
  case (Inl e')
  then have "e' = ValueError" by (simp add: next_num_raises)
  with Inl show ?thesis by (auto simp: insert_after_failover_def)
next
  case (Inr n)
  then show ?thesis
    by (auto simp: insert_after_failover_def Let_def split: option.splits prod.splits)
qed

text \<open>
  A largest \<open>user_id\<close> of \<open>u\<close> and as many nines as the digit limit allows is read
  by \<open>int\<close>, but its successor cannot be printed: the step ends in \<open>ValueError\<close>
  at the formatting of the identifier.
\<close>

lemma insert_after_failover_nines:
  assumes "640 \<le> maxd"
  shows "insert_after_failover maxd now reply [old_profile (CHR ''u'' # replicate maxd CHR ''9'')]
           = Inl ValueError"
proof -
  from assms have pos: "0 < maxd" by simp
  have "lstrip_u (CHR ''u'' # replicate maxd CHR ''9'') = replicate maxd CHR ''9''"
    by (cases maxd) (simp_all add: lstrip_u_def)
  then have "next_num maxd [old_profile (CHR ''u'' # replicate maxd CHR ''9'')] = Inr (10 ^ maxd)"
    using py_int_nines [OF pos order_refl]
    by (simp add: next_num_def old_profile_def)
  with successor_not_printed [OF assms] show ?thesis
    by (simp add: insert_after_failover_def)
qed

text \<open>
  C9, as the code has it. If the collection is not empty and the largest \<open>user_id\<close>,
  with all its leading \<open>u\<close> removed, is not an integer literal that \<open>int\<close> accepts,
  step 6 ends in an unhandled \<open>ValueError\<close> and inserts nothing, whatever the server
  would have answered; every \<open>uid_...\<close> identifier is of this kind.
\<close>

theorem insert_after_failover_value_error:
  "(find_one_sort_desc c = Some d \<and> py_int maxd (lstrip_u (user_id d)) = None \<longrightarrow>
      insert_after_failover maxd now reply c = Inl ValueError)
   \<and> py_int maxd (lstrip_u (''uid_'' @ ts)) = None"
proof -
  have "insert_after_failover maxd now reply c = Inl ValueError"
    if "find_one_sort_desc c = Some d" "py_int maxd (lstrip_u (user_id d)) = None"
  proof -
    from that have "next_num maxd c = Inl ValueError" by (simp add: next_num_def)
    then show ?thesis by (simp add: insert_after_failover_def)
  qed
  with uid_not_a_number [of maxd ts] show ?thesis by blast
qed

theorem insert_after_failover_value_error_witness:
  "find_one_sort_desc [old_profile ''u005'', old_profile ''uid_1730000000'']
     = Some (old_profile ''uid_1730000000'')
   \<and> py_int 4300 (lstrip_u (user_id (old_profile ''uid_1730000000''))) = None
   \<and> insert_after_failover 4300 0 Served [old_profile ''u005'', old_profile ''uid_1730000000'']
     = Inl ValueError"
proof -
  have a: "find_one_sort_desc [old_profile ''u005'', old_profile ''uid_1730000000'']
          = Some (old_profile ''uid_1730000000'')"
    by (simp add: old_profile_def)
  have b: "py_int 4300 (lstrip_u (user_id (old_profile ''uid_1730000000''))) = None"
    using uid_not_a_number [of 4300 "''1730000000''"] by (simp add: old_profile_def)
  from a b have "insert_after_failover 4300 0 Served
      [old_profile ''u005'', old_profile ''uid_1730000000''] = Inl ValueError"
    using insert_after_failover_value_error
      [of "[old_profile ''u005'', old_profile ''uid_1730000000'']"
          "old_profile ''uid_1730000000''" 4300 0 Served]
    by blast
  with a b show ?thesis by (intro conjI)
qed

text \<open>
  C9, as the claim words it, fails: \<open>uu007\<close> is not a \<open>u\<close> followed only by digits, yet
  \<open>lstrip\<close> removes both letters, \<open>int("007")\<close> is 7, and the step inserts \<open>u008\<close>.
\<close>

theorem insert_after_failover_uu007:
  "find_one_sort_desc [old_profile ''uu007''] = Some (old_profile ''uu007'') \<and>
   \<not> u_then_digits (user_id (old_profile ''uu007'')) \<and>
   insert_after_failover 4300 0 Served [old_profile ''uu007''] =
     Inr ([old_profile ''uu007'', failover_doc 0 ''u008'' ''8''], [Inserted ''u008''])"
  by (simp add: u_then_digits_def old_profile_def insert_after_failover_def next_num_def
      lstrip_u_def py_int_007 insert_one_def failover_doc_def baseline_ids baseline_names Let_def
      is_digit_def)

section \<open>The polling loop\<close>

lemma poll_secondary_eq:
  "poll_secondary sec uid xs n =
     (if \<exists>i \<in> set xs. read_matches sec uid i
      then (CaughtUp, n + Suc (length (takeWhile (\<lambda>i. \<not> read_matches sec uid i) xs)))
      else (ReplicationLag, n + length xs))"
proof (induction xs arbitrary: n)
  case Nil
  show ?case by simp
next
  case (Cons i xs)
  show ?case
  proof (cases "read_matches sec uid i")
    case True
    then show ?thesis by (auto simp: read_matches_def split: option.splits)
  next
    case False
    then have "poll_secondary sec uid (i # xs) n = poll_secondary sec uid xs (Suc n)"
      by (auto simp: read_matches_def split: option.splits)
    with False show ?thesis by (simp add: Cons.IH)
  qed
qed

lemma takeWhile_stops: "\<exists>x \<in> set xs. \<not> P x \<Longrightarrow> length (takeWhile P xs) < length xs"
  by (induction xs) auto

lemma first_match_upt:
  assumes "\<exists>i<m. P i"
  shows "length (takeWhile (\<lambda>i. \<not> P i) [0..<m]) < m
       \<and> P (length (takeWhile (\<lambda>i. \<not> P i) [0..<m]))"
proof -
  let ?k = "length (takeWhile (\<lambda>i. \<not> P i) [0..<m])"
  from assms have "\<exists>i \<in> set [0..<m]. \<not> (\<not> P i)" by auto
  then have lt: "?k < length [0..<m]"
    by (rule takeWhile_stops)
  then have "\<not> (\<not> P ([0..<m] ! ?k))" by (rule nth_length_takeWhile)
  with lt show ?thesis by simp
qed

text \<open>
  C10. The polling loop ends after at most ten reads. It declares the secondary caught up
  exactly when one of the ten reads returns a document whose \<open>user_id\<close> is the id
  written, and then the read it stopped at is such a read; in every other case it has
  made all ten reads and reports replication lag.
\<close>

theorem poll_until_caught_up_decides:
  "snd (poll_until_caught_up sec uid) \<le> 10
   \<and> (fst (poll_until_caught_up sec uid) = CaughtUp \<longleftrightarrow> (\<exists>i<10. read_matches sec uid i))
   \<and> (fst (poll_until_caught_up sec uid) = CaughtUp \<longrightarrow>
        read_matches sec uid (snd (poll_until_caught_up sec uid) - 1))
   \<and> (fst (poll_until_caught_up sec uid) \<noteq> CaughtUp \<longrightarrow>
        poll_until_caught_up sec uid = (ReplicationLag, 10))"
proof (cases "\<exists>i<10. read_matches sec uid i")
  case True
  then have "\<exists>i \<in> set [0..<10]. read_matches sec uid i" by auto
  with first_match_upt [OF True] True show ?thesis
    by (simp add: poll_until_caught_up_def poll_secondary_eq del: set_upt)
next
  case False
  then have "\<not> (\<exists>i \<in> set [0..<10]. read_matches sec uid i)" by auto
  with False show ?thesis
    by (simp add: poll_until_caught_up_def poll_secondary_eq del: set_upt)
qed

theorem poll_until_caught_up_decides_witness:
  "(\<exists>i<10. read_matches lagging_secondary ''uid_1730000000'' i)
   \<and> poll_until_caught_up lagging_secondary ''uid_1730000000'' = (CaughtUp, 4)
   \<and> (\<not> (\<exists>i<10. read_matches (\<lambda>i. []) ''uid_1730000000'' i))
   \<and> poll_until_caught_up (\<lambda>i. []) ''uid_1730000000'' = (ReplicationLag, 10)"
proof -
  have m: "read_matches lagging_secondary ''uid_1730000000'' 3"
    by (simp add: read_matches_def lagging_secondary_def find_one_id_def old_profile_def)
  then have ex: "\<exists>i<10. read_matches lagging_secondary ''uid_1730000000'' i"
    by (intro exI [of _ 3]) simp
  have run: "poll_until_caught_up lagging_secondary ''uid_1730000000'' = (CaughtUp, 4)"
    by code_simp
  have none: "\<not> (\<exists>i<10. read_matches (\<lambda>i. []) ''uid_1730000000'' i)"
    by (simp add: read_matches_def find_one_id_def)
  have "fst (poll_until_caught_up (\<lambda>i. []) ''uid_1730000000'') \<noteq> CaughtUp"
    using poll_until_caught_up_decides [of "\<lambda>i. []" "''uid_1730000000''"] none by blast
  then have "poll_until_caught_up (\<lambda>i. []) ''uid_1730000000'' = (ReplicationLag, 10)"
    using poll_until_caught_up_decides [of "\<lambda>i. []" "''uid_1730000000''"] by blast
  with ex run none show ?thesis by (intro conjI)
qed

section \<open>The write coordinator\<close>

lemma majority_threshold: "required_acks ConcernMajority n live = n div 2 + 1"
proof -
  define k where "k = n div 2"
  have "n = 2 * k \<or> n = 2 * k + 1" unfolding k_def by arith
  then have r: "real n = 2 * real k \<or> real n = 2 * real k + 1"
  proof
    assume "n = 2 * k" then show ?thesis by simp
  next
    assume "n = 2 * k + 1" then show ?thesis by simp
  qed
  have "\<lceil>(real n + 1) / 2\<rceil> = int (k + 1)"
  proof (rule ceiling_unique)
    show "real_of_int (int (k + 1)) - 1 < (real n + 1) / 2"
      using r by auto
    show "(real n + 1) / 2 \<le> real_of_int (int (k + 1))"
      using r by auto
  qed
  then show ?thesis by (simp add: required_acks_def k_def)
qed

lemma quorum_at_0: "quorum_at need cur acked evs 0 \<longleftrightarrow> need \<le> card acked"
  by (simp add: quorum_at_def)

lemma quorum_at_met: "need \<le> card acked \<Longrightarrow> \<not> quorum_at need cur acked evs (Suc j)"
  by (auto simp: quorum_at_def)

lemma quorum_at_Nil: "quorum_at need cur acked [] j \<longleftrightarrow> j = 0 \<and> need \<le> card acked"
  by (auto simp: quorum_at_def)

lemma quorum_at_ack:
  "\<not> need \<le> card acked \<Longrightarrow>
     quorum_at need cur acked (AckFrom a # evs) (Suc j) \<longleftrightarrow> quorum_at need cur (insert a acked) evs j"
  by (simp add: quorum_at_def All_less_Suc2)

lemma quorum_at_term:
  "\<not> need \<le> card acked \<Longrightarrow>
     quorum_at need cur acked (TermSeen t # evs) (Suc j) \<longleftrightarrow>
       \<not> cur < t \<and> quorum_at need cur acked evs j"
  by (auto simp: quorum_at_def All_less_Suc2)

lemma await_quorum_committed:
  "await_quorum need cur acked k evs = Committed m \<longleftrightarrow>
     (\<exists>j. m = k + j \<and> quorum_at need cur acked evs j)"
proof (induction need cur acked k evs rule: await_quorum.induct)
  case (1 need cur acked k)
  show ?case by (auto simp: quorum_at_Nil)
next
  case (2 need cur acked k a evs)
  show ?case
  proof (cases "need \<le> card acked")
    case True
    have "(\<exists>j. m = k + j \<and> quorum_at need cur acked (AckFrom a # evs) j) \<longleftrightarrow> m = k"
    proof
      assume "\<exists>j. m = k + j \<and> quorum_at need cur acked (AckFrom a # evs) j"
      then obtain j where j: "m = k + j" "quorum_at need cur acked (AckFrom a # evs) j" by blast
      with True quorum_at_met [of need acked cur] show "m = k" by (cases j) auto
    next
      assume "m = k"
      with True show "\<exists>j. m = k + j \<and> quorum_at need cur acked (AckFrom a # evs) j"
        by (intro exI [of _ 0]) (simp add: quorum_at_0)
    qed
    with True show ?thesis by auto
  next
    case False
    have "(\<exists>j. m = k + j \<and> quorum_at need cur acked (AckFrom a # evs) j)
        \<longleftrightarrow> (\<exists>j. m = Suc k + j \<and> quorum_at need cur (insert a acked) evs j)"
    proof
      assume "\<exists>j. m = k + j \<and> quorum_at need cur acked (AckFrom a # evs) j"
      then obtain j where j: "m = k + j" "quorum_at need cur acked (AckFrom a # evs) j" by blast
      with False obtain j' where "j = Suc j'" by (cases j) (auto simp: quorum_at_0)
      with j False show "\<exists>j. m = Suc k + j \<and> quorum_at need cur (insert a acked) evs j"
        by (auto simp: quorum_at_ack)
    next
      assume "\<exists>j. m = Suc k + j \<and> quorum_at need cur (insert a acked) evs j"
      then obtain j where "m = Suc k + j" "quorum_at need cur (insert a acked) evs j" by blast
      with False show "\<exists>j. m = k + j \<and> quorum_at need cur acked (AckFrom a # evs) j"
        by (intro exI [of _ "Suc j"]) (simp add: quorum_at_ack)
    qed
    with False 2 show ?thesis by simp
  qed
next
  case (3 need cur acked k t evs)
  show ?case
  proof (cases "need \<le> card acked")
    case True
    have "(\<exists>j. m = k + j \<and> quorum_at need cur acked (TermSeen t # evs) j) \<longleftrightarrow> m = k"
    proof
      assume "\<exists>j. m = k + j \<and> quorum_at need cur acked (TermSeen t # evs) j"
      then obtain j where j: "m = k + j" "quorum_at need cur acked (TermSeen t # evs) j" by blast
      with True quorum_at_met [of need acked cur] show "m = k" by (cases j) auto
    next
      assume "m = k"
      with True show "\<exists>j. m = k + j \<and> quorum_at need cur acked (TermSeen t # evs) j"
        by (intro exI [of _ 0]) (simp add: quorum_at_0)
    qed
    with True show ?thesis by auto
  next
    case False
    have "(\<exists>j. m = k + j \<and> quorum_at need cur acked (TermSeen t # evs) j)
        \<longleftrightarrow> \<not> cur < t \<and> (\<exists>j. m = Suc k + j \<and> quorum_at need cur acked evs j)"
    proof
      assume "\<exists>j. m = k + j \<and> quorum_at need cur acked (TermSeen t # evs) j"
      then obtain j where j: "m = k + j" "quorum_at need cur acked (TermSeen t # evs) j" by blast
      with False obtain j' where "j = Suc j'" by (cases j) (auto simp: quorum_at_0)
      with j False show "\<not> cur < t \<and> (\<exists>j. m = Suc k + j \<and> quorum_at need cur acked evs j)"
        by (auto simp: quorum_at_term)
    next
      assume "\<not> cur < t \<and> (\<exists>j. m = Suc k + j \<and> quorum_at need cur acked evs j)"
      then obtain j where "\<not> cur < t" "m = Suc k + j" "quorum_at need cur acked evs j" by blast
      with False show "\<exists>j. m = k + j \<and> quorum_at need cur acked (TermSeen t # evs) j"
        by (intro exI [of _ "Suc j"]) (simp add: quorum_at_term)
    qed
    with False 3 show ?thesis by auto
  qed
qed

lemma latency_test_thresholds:
  "map (\<lambda>w. required_acks w 3 3) [ConcernOne, ConcernMajority, ConcernAll] = [1, 2, 3]"
  by (simp add: majority_threshold) (simp add: required_acks_def)

text \<open>
  C6. A write commits exactly when the count of acknowledgments, the leader's own
  included, reaches the threshold of its concern for the first time, no higher term
  having been seen before: after \<open>j\<close> events the coordinator declares the commit if and
  only if the first \<open>j\<close> events bring the count to the threshold and no shorter run
  does. The threshold is 1 for \<open>One\<close>, the ceiling of \<open>(N+1)/2\<close>, that is
  \<open>N div 2 + 1\<close>, for \<open>Majority\<close>, and the number of live members for \<open>All\<close>.
\<close>

theorem write_commits_at_threshold:
  "(coordinate w n live ldr cur evs = Committed j \<longleftrightarrow>
      j \<le> length evs
      \<and> \<not> higher_term_in cur (take j evs)
      \<and> required_acks w n live \<le> ack_count ldr (take j evs)
      \<and> (\<forall>i < j. ack_count ldr (take i evs) < required_acks w n live))
   \<and> required_acks ConcernOne n live = 1
   \<and> int (required_acks ConcernMajority n live) = \<lceil>(real n + 1) / 2\<rceil>
   \<and> required_acks ConcernMajority n live = n div 2 + 1
   \<and> required_acks ConcernAll n live = live"
proof -
  have "coordinate w n live ldr cur evs = Committed j \<longleftrightarrow>
      quorum_at (required_acks w n live) cur {ldr} evs j"
    unfolding coordinate_def await_quorum_committed by auto
  then have a: "coordinate w n live ldr cur evs = Committed j \<longleftrightarrow>
      j \<le> length evs
      \<and> \<not> higher_term_in cur (take j evs)
      \<and> required_acks w n live \<le> ack_count ldr (take j evs)
      \<and> (\<forall>i < j. ack_count ldr (take i evs) < required_acks w n live)"
    by (simp add: quorum_at_def ack_count_def)
  have b: "required_acks ConcernOne n live = 1" "required_acks ConcernAll n live = live"
    by (simp_all add: required_acks_def)
  have "0 \<le> \<lceil>(real n + 1) / 2\<rceil>" by (simp add: ceiling_le_iff [symmetric] order_trans [of _ 0])
  then have c: "int (required_acks ConcernMajority n live) = \<lceil>(real n + 1) / 2\<rceil>"
    by (simp add: required_acks_def)
  from a b c majority_threshold [of n live] show ?thesis by blast
qed

theorem write_commits_at_threshold_witness:
  "coordinate ConcernMajority 3 3 0 1 [AckFrom 1, AckFrom 2] = Committed 1
   \<and> required_acks ConcernMajority 3 3 = 2"
proof -
  have r: "required_acks ConcernMajority 3 3 = 2"
    using write_commits_at_threshold [of ConcernMajority 3 3 0 1 "[AckFrom 1, AckFrom 2]" 1]
    by simp
  have "ack_count 0 (take 1 [AckFrom 1, AckFrom 2]) = 2" "ack_count 0 [] = 1"
    by (simp_all add: ack_count_def)
  with r have "coordinate ConcernMajority 3 3 0 1 [AckFrom 1, AckFrom 2] = Committed 1"
    using write_commits_at_threshold [of ConcernMajority 3 3 0 1 "[AckFrom 1, AckFrom 2]" 1]
    by simp
  with r show ?thesis by simp
qed

section \<open>Local reads after a write with concern \<open>One\<close>\<close>

lemma one_needs_no_follower: "coordinate ConcernOne n live ldr cur evs = Committed 0"
  by (cases evs rule: ackers.cases) (simp_all add: coordinate_def required_acks_def)

lemma all_of_three:
  "coordinate ConcernAll 3 3 0 1 [AckFrom 1, AckFrom 2] = Committed 2"
  "coordinate ConcernAll 3 3 0 (Suc 0) [AckFrom (Suc 0), AckFrom 2] = Committed 2"
  by (simp_all add: coordinate_def required_acks_def)

lemma live_three_nodes: "live_members 3 three_nodes = 3"
  by (simp add: live_members_def three_nodes_def upt_rec_numeral)

text \<open>
  C5. There are executions in which a \<open>Local\<close> read that follows a write with concern
  \<open>One\<close> of the same key does not see the write. The write is acknowledged with the
  leader's own log alone, whatever the followers do; a follower that has not received
  the entry answers \<open>NotFound\<close> on an empty log, and answers the older value when its
  log holds one, while the leader already answers the new value. Both answers are
  ordinary results of a read, not errors.
\<close>

theorem local_read_after_one_write:
  "fst (client_write 3 three_nodes 0 k v ConcernOne evs) = Ack 1 1
   \<and> read_local (snd (client_write 3 three_nodes 0 k v ConcernOne evs)) 1 k = NotFound
   \<and> fst (client_write 3 (snd (client_write 3 three_nodes 0 k v ConcernAll [AckFrom 1, AckFrom 2])) 0 k v'
           ConcernOne evs) = Ack 2 2
   \<and> read_local
        (snd (client_write 3 (snd (client_write 3 three_nodes 0 k v ConcernAll [AckFrom 1, AckFrom 2])) 0 k v'
           ConcernOne evs)) 1 k = Value v
   \<and> read_local
        (snd (client_write 3 (snd (client_write 3 three_nodes 0 k v ConcernAll [AckFrom 1, AckFrom 2])) 0 k v'
           ConcernOne evs)) 0 k = Value v'"
proof -
  define e1 where "e1 = \<lparr> le_index = 1, le_term = 1, le_key = k, le_value = v, le_token = 1 \<rparr>"
  define e2 where "e2 = \<lparr> le_index = 2, le_term = 1, le_key = k, le_value = v', le_token = 2 \<rparr>"
  have w1: "client_write 3 three_nodes 0 k v ConcernOne evs =
      (Ack 1 1, three_nodes(0 := (three_nodes 0)\<lparr> node_log := [e1], commit_index := 1 \<rparr>))"
    by (simp add: client_write_def log_append_def one_needs_no_follower e1_def three_nodes_def Let_def)
  define cl1 where "cl1 = (\<lambda>i. if i < 3 then
      \<lparr> node_role = (if i = 0 then Leader else Follower), node_term = 1, node_log = [e1],
        commit_index = (if i = 0 then 1 else 0) \<rparr> else three_nodes i)"
  have wa: "snd (client_write 3 three_nodes 0 k v ConcernAll [AckFrom 1, AckFrom 2]) = cl1"
    by (rule ext)
      (simp add: client_write_def log_append_def live_three_nodes all_of_three e1_def three_nodes_def
        Let_def deliver_def cl1_def)
  have w2: "client_write 3 cl1 0 k v' ConcernOne evs =
      (Ack 2 2, cl1(0 := (cl1 0)\<lparr> node_log := [e1, e2], commit_index := 2 \<rparr>))"
    by (simp add: client_write_def log_append_def one_needs_no_follower e1_def e2_def cl1_def Let_def
        numeral_2_eq_2)
  show ?thesis
    unfolding wa w1 w2
    by (simp add: read_local_def three_nodes_def cl1_def e1_def e2_def)
qed

section \<open>Leader election\<close>

lemma votes_for_card: "votes_for n s t c = card {v. v < n \<and> (v, t, c) \<in> set (votes s)}"
proof -
  have "distinct (filter (\<lambda>v. (v, t, c) \<in> set (votes s)) [0..<n])" by simp
  then have "votes_for n s t c = card (set (filter (\<lambda>v. (v, t, c) \<in> set (votes s)) [0..<n]))"
    unfolding votes_for_def by (rule distinct_card [symmetric])
  also have "set (filter (\<lambda>v. (v, t, c) \<in> set (votes s)) [0..<n])
      = {v. v < n \<and> (v, t, c) \<in> set (votes s)}"
    by auto
  finally show ?thesis .
qed

lemma votes_for_mono:
  assumes "set (votes s) \<subseteq> set (votes s')"
  shows "votes_for n s t c \<le> votes_for n s' t c"
proof -
  have "{v. v < n \<and> (v, t, c) \<in> set (votes s)} \<subseteq> {v. v < n \<and> (v, t, c) \<in> set (votes s')}"
    using assms by auto
  moreover have "finite {v. v < n \<and> (v, t, c) \<in> set (votes s')}" by simp
  ultimately show ?thesis unfolding votes_for_card by (rule card_mono [rotated])
qed

lemma two_majorities_meet:
  assumes "n < 2 * votes_for n s t a" and "n < 2 * votes_for n s t b"
  shows "\<exists>v. (v, t, a) \<in> set (votes s) \<and> (v, t, b) \<in> set (votes s)"
proof -
  let ?A = "{v. v < n \<and> (v, t, a) \<in> set (votes s)}"
  let ?B = "{v. v < n \<and> (v, t, b) \<in> set (votes s)}"
  have fin: "finite ?A" "finite ?B" by simp_all
  have "?A \<union> ?B \<subseteq> {0..<n}" by auto
  then have "card (?A \<union> ?B) \<le> card {0..<n}"
    by (intro card_mono) simp_all
  then have "card (?A \<union> ?B) \<le> n" by simp
  moreover have "card ?A + card ?B = card (?A \<union> ?B) + card (?A \<inter> ?B)"
    using fin by (rule card_Un_Int)
  ultimately have "0 < card (?A \<inter> ?B)"
    using assms unfolding votes_for_card by linarith
  then have "?A \<inter> ?B \<noteq> {}" by (simp add: card_gt_0_iff)
  then obtain v where "v \<in> ?A \<inter> ?B" by blast
  then show ?thesis by blast
qed

lemma votes_currentD:
  "votes_current s \<Longrightarrow> (v, t, c) \<in> set (votes s) \<Longrightarrow>
     t \<le> cur_term s v \<and> (t = cur_term s v \<longrightarrow> voted_for s v = Some c)"
  unfolding votes_current_def by blast

lemma handle_term_mono: "cur_term s v \<le> cur_term (handle n s e) v"
  by (cases e) auto

lemma handle_same_term_vote:
  "cur_term (handle n s e) v = cur_term s v \<Longrightarrow> voted_for s v = Some c \<Longrightarrow>
     voted_for (handle n s e) v = Some c"
  by (cases e) (auto split: if_splits)

lemma handle_new_vote:
  "(v, t, c) \<in> set (votes (handle n s e)) \<Longrightarrow> (v, t, c) \<notin> set (votes s) \<Longrightarrow>
     cur_term (handle n s e) v = t \<and> voted_for (handle n s e) v = Some c
     \<and> (cur_term s v < t \<or> (cur_term s v = t \<and> voted_for s v = None))"
  by (cases e) (auto split: if_splits)

lemma handle_keeps_votes_current:
  assumes "votes_current s"
  shows "votes_current (handle n s e)"
  unfolding votes_current_def
proof (intro allI impI)
  fix v t c assume new: "(v, t, c) \<in> set (votes (handle n s e))"
  show "t \<le> cur_term (handle n s e) v
      \<and> (t = cur_term (handle n s e) v \<longrightarrow> voted_for (handle n s e) v = Some c)"
  proof (cases "(v, t, c) \<in> set (votes s)")
    case True
    from votes_currentD [OF assms True] handle_term_mono [of s v n e]
      handle_same_term_vote [of n s e v c]
    show ?thesis by auto
  next
    case False
    from handle_new_vote [OF new False] show ?thesis by simp
  qed
qed

lemma handle_keeps_one_vote:
  assumes "votes_current s" and "one_vote_per_term s"
  shows "one_vote_per_term (handle n s e)"
  unfolding one_vote_per_term_def
proof (intro allI impI)
  fix v t c c'
  assume a: "(v, t, c) \<in> set (votes (handle n s e))"
    and b: "(v, t, c') \<in> set (votes (handle n s e))"
  show "c = c'"
  proof (cases "(v, t, c) \<in> set (votes s)")
    case ca: True
    show ?thesis
    proof (cases "(v, t, c') \<in> set (votes s)")
      case True
      with ca assms(2) show ?thesis unfolding one_vote_per_term_def by blast
    next
      case False
      from handle_new_vote [OF b False] votes_currentD [OF assms(1) ca]
      show ?thesis by auto
    qed
  next
    case ca: False
    show ?thesis
    proof (cases "(v, t, c') \<in> set (votes s)")
      case True
      from handle_new_vote [OF a ca] votes_currentD [OF assms(1) True]
      show ?thesis by auto
    next
      case False
      from handle_new_vote [OF a ca] handle_new_vote [OF b False]
      show ?thesis by simp
    qed
  qed
qed

lemma handle_votes_grow: "set (votes s) \<subseteq> set (votes (handle n s e))"
  by (cases e) auto

lemma handle_keeps_leaders:
  assumes "leaders_elected n s"
  shows "leaders_elected n (handle n s e)"
  unfolding leaders_elected_def
proof (intro allI impI)
  fix i assume i: "i < n" and l: "role_of (handle n s e) i = Leader"
  show "n < 2 * votes_for n (handle n s e) (cur_term (handle n s e) i) i"
  proof (cases "role_of s i = Leader \<and> cur_term (handle n s e) i = cur_term s i")
    case True
    with assms i have "n < 2 * votes_for n s (cur_term s i) i" by (simp add: leaders_elected_def)
    also have "\<dots> \<le> 2 * votes_for n (handle n s e) (cur_term s i) i"
      using votes_for_mono [OF handle_votes_grow] by simp
    finally show ?thesis using True by simp
  next
    case False
    with l i have "\<exists>c. e = MajorityReceived c \<and> c = i \<and> role_of s i = Candidate
        \<and> n < 2 * votes_for n s (cur_term s i) i"
      by (cases e) (auto split: if_splits)
    then show ?thesis by (auto simp: votes_for_def)
  qed
qed

lemma handle_keeps_inv: "vote_inv n s \<Longrightarrow> vote_inv n (handle n s e)"
  unfolding vote_inv_def
  using handle_keeps_votes_current handle_keeps_one_vote handle_keeps_leaders by blast

lemma initial_inv: "vote_inv n initial_state"
  by (simp add: vote_inv_def votes_current_def one_vote_per_term_def leaders_elected_def initial_state_def)

lemma foldl_keeps_inv: "vote_inv n s \<Longrightarrow> vote_inv n (foldl (handle n) s evs)"
  by (induction evs arbitrary: s) (simp_all add: handle_keeps_inv)

lemma run_inv: "vote_inv n (run n evs)"
  unfolding run_def by (rule foldl_keeps_inv [OF initial_inv])

lemma inv_one_leader:
  assumes "vote_inv n s" "a < n" "b < n" "role_of s a = Leader" "role_of s b = Leader"
    "cur_term s a = cur_term s b"
  shows "a = b"
proof -
  from assms(1,2,4) have "n < 2 * votes_for n s (cur_term s a) a"
    unfolding vote_inv_def leaders_elected_def by blast
  moreover from assms(1,3,5) have "n < 2 * votes_for n s (cur_term s b) b"
    unfolding vote_inv_def leaders_elected_def by blast
  then have "n < 2 * votes_for n s (cur_term s a) b"
    by (simp only: assms(6))
  ultimately obtain v where
    "(v, cur_term s a, a) \<in> set (votes s)" "(v, cur_term s a, b) \<in> set (votes s)"
    using two_majorities_meet by blast
  moreover from assms(1) have "one_vote_per_term s" by (simp add: vote_inv_def)
  ultimately show ?thesis unfolding one_vote_per_term_def by blast
qed

text \<open>
  An election and a later one: member 0 wins term 1 with the votes of 0 and 1; members
  1 and 2 then elect member 1 for term 2 while member 0 has not heard of it. Two members
  hold the role \<open>Leader\<close>, in different terms.
\<close>

lemma two_leaders_two_terms:
  "leaders_in_term 3
     (run 3 [ElectionTimeout 0, VoteRequest 0 0 1, VoteRequest 1 0 1, MajorityReceived 0,
             ElectionTimeout 1, VoteRequest 1 1 2, VoteRequest 2 1 2, MajorityReceived 1]) 1 = [0]
   \<and> leaders_in_term 3
     (run 3 [ElectionTimeout 0, VoteRequest 0 0 1, VoteRequest 1 0 1, MajorityReceived 0,
             ElectionTimeout 1, VoteRequest 1 1 2, VoteRequest 2 1 2, MajorityReceived 1]) 2 = [1]"
  by code_simp

text \<open>
  C2. In every cluster state that a sequence of events reaches from the initial state,
  at most one member holds the role \<open>Leader\<close> for any given term.
\<close>

theorem one_leader_per_term: "length (leaders_in_term n (run n evs) t) \<le> 1"
proof -
  let ?s = "run n evs"
  let ?P = "\<lambda>i. role_of ?s i = Leader \<and> cur_term ?s i = t"
  have "card {i. i < n \<and> ?P i} \<le> 1"
  proof (rule card_le_Suc0_iff_eq [THEN iffD2, unfolded One_nat_def [symmetric]])
    show "finite {i. i < n \<and> ?P i}" by simp
    show "\<forall>a \<in> {i. i < n \<and> ?P i}. \<forall>b \<in> {i. i < n \<and> ?P i}. a = b"
      using inv_one_leader [OF run_inv] by auto
  qed
  moreover have "length (leaders_in_term n ?s t) = card {i. i < n \<and> ?P i}"
  proof -
    have "distinct (leaders_in_term n ?s t)"
      unfolding leaders_in_term_def by simp
    then have "length (leaders_in_term n ?s t) = card (set (leaders_in_term n ?s t))"
      by (rule distinct_card [symmetric])
    also have "set (leaders_in_term n ?s t) = {i. i < n \<and> ?P i}"
      unfolding leaders_in_term_def by auto
    finally show ?thesis .
  qed
  ultimately show ?thesis by simp
qed

end
